theory Spec2Isabelle
  imports Complex_Main "HOL-Library.Word" "HOL-Library.Sublist"
begin

section \<open>JavaScript strings\<close>

text \<open>
  A JavaScript string is a sequence of UTF-16 code units. String literals of the source
  are written \<open>js ''...''\<close>; every character of such a literal is ASCII, so one character is
  one code unit.
\<close>

type_synonym jschar = "16 word"
type_synonym jsstring = "jschar list"

definition js :: "string \<Rightarrow> jsstring" where
  "js s = map of_char s"

text \<open>
  The code units that \<open>String.prototype.trim\<close> strips: ECMAScript WhiteSpace (TAB, VT, FF,
  SP, NBSP, ZWNBSP and the Unicode space separators) and LineTerminator (LF, CR, LS, PS).
\<close>

definition isLineTerminator :: "jschar \<Rightarrow> bool" where
  "isLineTerminator c = (c = 0x0A \<or> c = 0x0D \<or> c = 0x2028 \<or> c = 0x2029)"

definition isWhiteSpace :: "jschar \<Rightarrow> bool" where
  "isWhiteSpace c =
     (c = 0x09 \<or> c = 0x0B \<or> c = 0x0C \<or> c = 0x20 \<or> c = 0xA0 \<or> c = 0x1680 \<or>
      (0x2000 \<le> c \<and> c \<le> 0x200A) \<or> c = 0x202F \<or> c = 0x205F \<or> c = 0x3000 \<or>
      c = 0xFEFF)"

definition isTrimmed :: "jschar \<Rightarrow> bool" where
  "isTrimmed c = (isWhiteSpace c \<or> isLineTerminator c)"

definition trimStart :: "jsstring \<Rightarrow> jsstring" where
  "trimStart s = dropWhile isTrimmed s"

definition trimEnd :: "jsstring \<Rightarrow> jsstring" where
  "trimEnd s = rev (dropWhile isTrimmed (rev s))"

definition trim :: "jsstring \<Rightarrow> jsstring" where
  "trim s = trimStart (trimEnd s)"

text \<open>
  \<open>content.split('\n')\<close>: the pieces between line feeds; a string without a line feed
  is one piece, and the empty string gives one empty piece. The result is never empty, so
  the last branch of the \<open>case\<close> is never taken.
\<close>

fun split_nl :: "jsstring \<Rightarrow> jsstring list" where
  "split_nl [] = [[]]"
| "split_nl (c # cs) =
     (if c = 0x0A then [] # split_nl cs
      else (case split_nl cs of l # ls \<Rightarrow> (c # l) # ls | [] \<Rightarrow> [[c]]))"

text \<open>\<open>s.startsWith(p)\<close> is \<open>prefix p s\<close>.\<close>

definition startsWith :: "jsstring \<Rightarrow> jsstring \<Rightarrow> bool" where
  "startsWith s p = prefix p s"

section \<open>The regular expressions of the parser\<close>

text \<open>
  \<open>line.match(/,(.+)$/)\<close>: the regular expression is tried at each position from the
  left. At a comma, \<open>.+\<close> takes one or more code units that are not line terminators and
  \<open>$\<close> (no \<open>m\<close> flag) holds only at the end of the string, so the attempt succeeds exactly
  when the rest of the string is non-empty and free of line terminators. The result is
  capture group 1.
\<close>

fun titleMatch :: "jsstring \<Rightarrow> jsstring option" where
  "titleMatch [] = None"
| "titleMatch (c # cs) =
     (if c = 0x2C \<and> cs \<noteq> [] \<and> list_all (\<lambda>x. \<not> isLineTerminator x) cs then Some cs
      else titleMatch cs)"

text \<open>
  \<open>line.match(/KEY="([^"]*)"/)\<close> for a literal \<open>KEY\<close>: at a position where \<open>KEY="\<close>
  starts, \<open>[^"]*\<close> takes every code unit up to the next quote, and the attempt succeeds
  when there is such a quote. The result is capture group 1.
\<close>

definition attrAt :: "jsstring \<Rightarrow> jsstring \<Rightarrow> jsstring option" where
  "attrAt key s =
     (if prefix (key @ js ''=\"'') s then
        (let rest = drop (length key + 2) s;
             v = takeWhile (\<lambda>c. c \<noteq> 0x22) rest
         in if length v < length rest then Some v else None)
      else None)"

fun attrMatch :: "jsstring \<Rightarrow> jsstring \<Rightarrow> jsstring option" where
  "attrMatch key [] = attrAt key []"
| "attrMatch key (c # cs) =
     (case attrAt key (c # cs) of Some v \<Rightarrow> Some v | None \<Rightarrow> attrMatch key cs)"

section \<open>The M3U parser\<close>

record channel =
  id_ch :: int
  title :: jsstring
  group :: jsstring
  logo :: jsstring
  url :: jsstring
  tvgId :: jsstring
  tvgName :: jsstring

text \<open>
  The object built at a metadata line (\<open>#EXTINF:\<close>): the defaults, then each field whose
  regular expression matches. \<open>n\<close> is the value of \<open>Date.now() + i\<close>.
\<close>

definition extinf :: "int \<Rightarrow> jsstring \<Rightarrow> channel" where
  "extinf n line =
     (let current = \<lparr>id_ch = n, title = [], group = js ''Uncategorized'', logo = [],
                     url = [], tvgId = [], tvgName = []\<rparr>;
          current = (case titleMatch line of
                       Some t \<Rightarrow> current\<lparr>title := trim t\<rparr> | None \<Rightarrow> current);
          current = (case attrMatch (js ''group-title'') line of
                       Some v \<Rightarrow> current\<lparr>group := v\<rparr> | None \<Rightarrow> current);
          current = (case attrMatch (js ''tvg-logo'') line of
                       Some v \<Rightarrow> current\<lparr>logo := v\<rparr> | None \<Rightarrow> current);
          current = (case attrMatch (js ''tvg-id'') line of
                       Some v \<Rightarrow> current\<lparr>tvgId := v\<rparr> | None \<Rightarrow> current);
          current = (case attrMatch (js ''tvg-name'') line of
                       Some v \<Rightarrow> current\<lparr>tvgName := v\<rparr> | None \<Rightarrow> current)
      in current)"

text \<open>
  \<open>content.split('\n').map(l => l.trim()).filter(Boolean)\<close>: a string is truthy when it
  is not empty.
\<close>

definition doc_lines :: "jsstring \<Rightarrow> jsstring list" where
  "doc_lines content = filter (\<lambda>l. l \<noteq> []) (map trim (split_nl content))"

text \<open>
  The \<open>for\<close> loop of \<open>parseM3U\<close>, on the lines from index \<open>i\<close> on. The state is the pair
  of \<open>current\<close> (\<open>None\<close> for \<open>null\<close>) and \<open>channels\<close>. \<open>now i\<close> is what \<open>Date.now()\<close>
  returns when it is called in iteration \<open>i\<close>.
\<close>

fun parse_loop ::
  "(nat \<Rightarrow> int) \<Rightarrow> nat \<Rightarrow> jsstring list \<Rightarrow> channel option \<times> channel list
     \<Rightarrow> channel option \<times> channel list" where
  "parse_loop now i [] st = st"
| "parse_loop now i (line # rest) (current, channels) =
     (if startsWith line (js ''#EXTINF:'') then
        parse_loop now (Suc i) rest (Some (extinf (now i + int i) line), channels)
      else (case current of
              Some cur \<Rightarrow>
                if \<not> startsWith line (js ''#'') then
                  parse_loop now (Suc i) rest (None, channels @ [cur\<lparr>url := line\<rparr>])
                else parse_loop now (Suc i) rest (current, channels)
            | None \<Rightarrow> parse_loop now (Suc i) rest (current, channels)))"

definition parseM3U :: "(nat \<Rightarrow> int) \<Rightarrow> jsstring \<Rightarrow> channel list" where
  "parseM3U now content = snd (parse_loop now 0 (doc_lines content) (None, []))"

text \<open>
  The positions of the entries that the loop emits: the pair of the index of the metadata
  line and the index of the URI line that closes it, in the order of emission. It follows
  the branches of \<open>parse_loop\<close>, with the index of the open metadata line in place of
  \<open>current\<close>.
\<close>

fun entries :: "nat \<Rightarrow> jsstring list \<Rightarrow> nat option \<Rightarrow> (nat \<times> nat) list" where
  "entries i [] opn = []"
| "entries i (line # rest) opn =
     (if startsWith line (js ''#EXTINF:'') then entries (Suc i) rest (Some i)
      else (case opn of
              Some m \<Rightarrow>
                if \<not> startsWith line (js ''#'') then (m, i) # entries (Suc i) rest None
                else entries (Suc i) rest opn
            | None \<Rightarrow> entries (Suc i) rest opn))"

text \<open>
  The record of the entry whose metadata line is line \<open>fst p\<close> and whose URI line is line
  \<open>snd p\<close> of the lines \<open>L\<close>.
\<close>

definition record_of :: "(nat \<Rightarrow> int) \<Rightarrow> jsstring list \<Rightarrow> nat \<times> nat \<Rightarrow> channel" where
  "record_of now L p = (extinf (now (fst p) + int (fst p)) (L ! fst p))\<lparr>url := L ! snd p\<rparr>"

text \<open>A clock that stands still during one call, for the examples.\<close>

definition clock0 :: "nat \<Rightarrow> int" where
  "clock0 i = 1700000000000"

section \<open>JavaScript values and errors\<close>

text \<open>
  The values a field of a parsed JSON body can hold (\<open>JUndefined\<close> for a missing field).
  \<open>truthy\<close> is \<open>ToBoolean\<close>: \<open>!v\<close> is \<open>\<not> truthy v\<close>.
\<close>

datatype jsvalue =
    JUndefined
  | JNull
  | JBoolean bool
  | JNumber real
  | JString jsstring
  | JArray "jsvalue list"
  | JObject "(jsstring \<times> jsvalue) list"

fun truthy :: "jsvalue \<Rightarrow> bool" where
  "truthy JUndefined = False"
| "truthy JNull = False"
| "truthy (JBoolean b) = b"
| "truthy (JNumber x) = (x \<noteq> 0)"
| "truthy (JString s) = (s \<noteq> [])"
| "truthy (JArray xs) = True"
| "truthy (JObject kvs) = True"

datatype js_error =
    TypeError (message: jsstring)
  | URIError (message: jsstring)
  | AxiosError (message: jsstring)

text \<open>
  The call \<open>parseM3U(content)\<close> for an arbitrary value: the first statement reads
  \<open>content.split\<close> and calls it, which throws a TypeError unless \<open>content\<close> is a string.
\<close>

fun parseM3U_call :: "(nat \<Rightarrow> int) \<Rightarrow> jsvalue \<Rightarrow> js_error + channel list" where
  "parseM3U_call now (JString s) = Inr (parseM3U now s)"
| "parseM3U_call now JUndefined =
     Inl (TypeError (js ''Cannot read properties of undefined (reading 'split')''))"
| "parseM3U_call now JNull =
     Inl (TypeError (js ''Cannot read properties of null (reading 'split')''))"
| "parseM3U_call now v = Inl (TypeError (js ''content.split is not a function''))"

section \<open>decodeURIComponent\<close>

text \<open>
  ECMAScript \<open>Decode\<close> with an empty set of preserved escapes: \<open>%XY\<close> with hexadecimal
  digits is an octet; an octet below 0x80 is a code unit, a larger one starts a UTF-8
  sequence of \<open>n\<close> escaped octets (\<open>n\<close> the number of leading one bits), which must be the
  valid encoding of a code point. Every failure is the same \<open>URIError\<close>.
\<close>

definition hexval :: "jschar \<Rightarrow> nat option" where
  "hexval c =
     (if 0x30 \<le> c \<and> c \<le> 0x39 then Some (unat c - 0x30)
      else if 0x41 \<le> c \<and> c \<le> 0x46 then Some (unat c - 0x41 + 10)
      else if 0x61 \<le> c \<and> c \<le> 0x66 then Some (unat c - 0x61 + 10)
      else None)"

fun parseHexOctet :: "jsstring \<Rightarrow> nat option" where
  "parseHexOctet (p # h # l # rest) =
     (if p = 0x25 then
        (case hexval h of None \<Rightarrow> None
         | Some a \<Rightarrow> (case hexval l of None \<Rightarrow> None | Some b \<Rightarrow> Some (16 * a + b)))
      else None)"
| "parseHexOctet s = None"

fun octets :: "nat \<Rightarrow> jsstring \<Rightarrow> nat list option" where
  "octets 0 s = Some []"
| "octets (Suc n) s =
     (case parseHexOctet s of None \<Rightarrow> None
      | Some b \<Rightarrow> (case octets n (drop 3 s) of None \<Rightarrow> None | Some bs \<Rightarrow> Some (b # bs)))"

text \<open>The number of leading one bits of an octet; 5 stands for five or more.\<close>

definition leadingOnes :: "nat \<Rightarrow> nat" where
  "leadingOnes b =
     (if b < 0x80 then 0 else if b < 0xC0 then 1 else if b < 0xE0 then 2
      else if b < 0xF0 then 3 else if b < 0xF8 then 4 else 5)"

definition isContinuation :: "nat \<Rightarrow> bool" where
  "isContinuation b = (0x80 \<le> b \<and> b < 0xC0)"

text \<open>
  The code point of a UTF-8 sequence of two to four octets whose first octet has that many
  leading one bits; \<open>None\<close> when a later octet is no continuation octet, the encoding is
  overlong, or the code point is a surrogate or beyond 0x10FFFF.
\<close>

definition utf8_decode :: "nat list \<Rightarrow> nat option" where
  "utf8_decode os =
     (case os of
        [a, b] \<Rightarrow>
          (let v = (a - 0xC0) * 64 + (b - 0x80)
           in if isContinuation b \<and> 0x80 \<le> v then Some v else None)
      | [a, b, c] \<Rightarrow>
          (let v = (a - 0xE0) * 4096 + (b - 0x80) * 64 + (c - 0x80)
           in if isContinuation b \<and> isContinuation c \<and> 0x800 \<le> v
                 \<and> \<not> (0xD800 \<le> v \<and> v \<le> 0xDFFF) then Some v else None)
      | [a, b, c, d] \<Rightarrow>
          (let v = (a - 0xF0) * 262144 + (b - 0x80) * 4096 + (c - 0x80) * 64 + (d - 0x80)
           in if isContinuation b \<and> isContinuation c \<and> isContinuation d
                 \<and> 0x10000 \<le> v \<and> v \<le> 0x10FFFF then Some v else None)
      | _ \<Rightarrow> None)"

definition codeUnits :: "nat \<Rightarrow> jsstring" where
  "codeUnits v =
     (if v < 0x10000 then [of_nat v]
      else [of_nat (0xD800 + (v - 0x10000) div 1024), of_nat (0xDC00 + (v - 0x10000) mod 1024)])"

definition uri_malformed :: js_error where
  "uri_malformed = URIError (js ''URI malformed'')"

fun decodeURIComponent :: "jsstring \<Rightarrow> js_error + jsstring" where
  "decodeURIComponent [] = Inr []"
| "decodeURIComponent (c # cs) =
     (if c \<noteq> 0x25 then
        (case decodeURIComponent cs of Inl e \<Rightarrow> Inl e | Inr r \<Rightarrow> Inr (c # r))
      else
        (case parseHexOctet (c # cs) of
           None \<Rightarrow> Inl uri_malformed
         | Some b \<Rightarrow>
             if leadingOnes b = 0 then
               (case decodeURIComponent (drop 2 cs) of
                  Inl e \<Rightarrow> Inl e | Inr r \<Rightarrow> Inr (of_nat b # r))
             else if leadingOnes b = 1 \<or> leadingOnes b > 4 then Inl uri_malformed
             else
               (case octets (leadingOnes b - 1) (drop 2 cs) of
                  None \<Rightarrow> Inl uri_malformed
                | Some bs \<Rightarrow>
                    (case utf8_decode (b # bs) of
                       None \<Rightarrow> Inl uri_malformed
                     | Some v \<Rightarrow>
                         (case decodeURIComponent (drop (2 + 3 * (leadingOnes b - 1)) cs) of
                            Inl e \<Rightarrow> Inl e | Inr r \<Rightarrow> Inr (codeUnits v @ r))))))"

section \<open>The HTTP client and the responses\<close>

text \<open>
  A call of axios: the request it is given, and its outcome, a resolved promise with the
  upstream response or a rejected one with an error. The client is a parameter of the
  handlers. \<open>target\<close> is the \<open>url\<close> of the request.
\<close>

datatype http_method = GET | HEAD

datatype response_type = ResponseText | ResponseStream

record request =
  req_method :: http_method
  target :: jsvalue
  timeout :: nat
  userAgent :: jsstring
  responseType :: "response_type option"

record upstream =
  up_status :: nat
  up_headers :: "jsstring \<Rightarrow> jsstring option"
  up_data :: jsstring

datatype outcome = Resolved upstream | Rejected js_error

text \<open>
  What a handler sends: the status (200 unless \<open>res.status\<close> sets it), the headers it sets
  with \<open>res.setHeader\<close>, and the body, a JSON object of one of the shapes of the source or
  the bytes sent or piped.
\<close>

datatype resbody =
    ErrorJson jsstring
  | ChannelsJson "channel list" nat
  | AliveJson "jsstring option" nat
  | DeadJson jsstring
  | Raw jsstring

record response =
  status :: nat
  headers :: "(jsstring \<times> jsstring) list"
  body :: resbody

definition json :: "nat \<Rightarrow> resbody \<Rightarrow> response" where
  "json code b = \<lparr>status = code, headers = [], body = b\<rparr>"

definition axios_request ::
  "http_method \<Rightarrow> jsvalue \<Rightarrow> nat \<Rightarrow> response_type option \<Rightarrow> request" where
  "axios_request m u t rt =
     \<lparr>req_method = m, target = u, timeout = t, userAgent = js ''IPTV-Player/1.0'',
      responseType = rt\<rparr>"

text \<open>\<open>h || d\<close> for a header that may be missing.\<close>

definition header_or :: "jsstring option \<Rightarrow> jsstring \<Rightarrow> jsstring" where
  "header_or h d = (case h of Some v \<Rightarrow> if v \<noteq> [] then v else d | None \<Rightarrow> d)"

section \<open>The routes\<close>

text \<open>
  Each route that calls axios is in two parts: what happens up to the call, which ends in
  a response of its own or in the request that is dispatched, and the handler, which
  dispatches the request and answers from its outcome. The argument of a route is the
  field it reads from \<open>req.body\<close> (any JSON value) or from \<open>req.query\<close> (a string, or
  \<open>None\<close> when the parameter is missing).
\<close>

text \<open>\<open>POST /api/m3u/url\<close>\<close>

definition m3u_url_request :: "jsvalue \<Rightarrow> response + request" where
  "m3u_url_request u =
     (if \<not> truthy u then Inl (json 400 (ErrorJson (js ''URL required'')))
      else Inr (axios_request GET u 30000 (Some ResponseText)))"

definition m3u_url :: "(request \<Rightarrow> outcome) \<Rightarrow> (nat \<Rightarrow> int) \<Rightarrow> jsvalue \<Rightarrow> response" where
  "m3u_url axios now u =
     (case m3u_url_request u of
        Inl r \<Rightarrow> r
      | Inr q \<Rightarrow>
          (case axios q of
             Rejected err \<Rightarrow> json 500 (ErrorJson (js ''Failed to fetch M3U: '' @ message err))
           | Resolved resp \<Rightarrow>
               (let channels = parseM3U now (up_data resp)
                in json 200 (ChannelsJson channels (length channels)))))"

text \<open>\<open>POST /api/m3u/text\<close>\<close>

definition m3u_text :: "(nat \<Rightarrow> int) \<Rightarrow> jsvalue \<Rightarrow> response" where
  "m3u_text now content =
     (if \<not> truthy content then json 400 (ErrorJson (js ''Content required''))
      else (case parseM3U_call now content of
              Inl err \<Rightarrow> json 500 (ErrorJson (js ''Failed to parse M3U: '' @ message err))
            | Inr channels \<Rightarrow> json 200 (ChannelsJson channels (length channels))))"

text \<open>\<open>GET /api/proxy/stream\<close>\<close>

definition proxy_stream_request :: "jsstring option \<Rightarrow> response + request" where
  "proxy_stream_request u =
     (case u of
        None \<Rightarrow> Inl (json 400 (ErrorJson (js ''URL required'')))
      | Some s \<Rightarrow>
          if s = [] then Inl (json 400 (ErrorJson (js ''URL required'')))
          else (case decodeURIComponent s of
                  Inl err \<Rightarrow> Inl (json 500 (ErrorJson (js ''Proxy error: '' @ message err)))
                | Inr d \<Rightarrow> Inr (axios_request GET (JString d) 15000 (Some ResponseStream))))"

definition proxy_stream :: "(request \<Rightarrow> outcome) \<Rightarrow> jsstring option \<Rightarrow> response" where
  "proxy_stream axios u =
     (case proxy_stream_request u of
        Inl r \<Rightarrow> r
      | Inr q \<Rightarrow>
          (case axios q of
             Rejected err \<Rightarrow> json 500 (ErrorJson (js ''Proxy error: '' @ message err))
           | Resolved resp \<Rightarrow>
               \<lparr>status = 200,
                headers =
                  [(js ''Content-Type'',
                    header_or (up_headers resp (js ''content-type'')) (js ''video/mp2t'')),
                   (js ''Access-Control-Allow-Origin'', js ''*'')],
                body = Raw (up_data resp)\<rparr>))"

text \<open>\<open>POST /api/stream/check\<close>\<close>

definition stream_check_request :: "jsvalue \<Rightarrow> request" where
  "stream_check_request u = axios_request HEAD u 8000 None"

definition stream_check :: "(request \<Rightarrow> outcome) \<Rightarrow> jsvalue \<Rightarrow> response" where
  "stream_check axios u =
     (case axios (stream_check_request u) of
        Resolved resp \<Rightarrow>
          json 200 (AliveJson (up_headers resp (js ''content-type'')) (up_status resp))
      | Rejected err \<Rightarrow> json 200 (DeadJson (message err)))"

text \<open>\<open>POST /api/epg/fetch\<close>\<close>

definition epg_fetch_request :: "jsvalue \<Rightarrow> response + request" where
  "epg_fetch_request u =
     (if \<not> truthy u then Inl (json 400 (ErrorJson (js ''EPG URL required'')))
      else Inr (axios_request GET u 30000 (Some ResponseText)))"

definition epg_fetch :: "(request \<Rightarrow> outcome) \<Rightarrow> jsvalue \<Rightarrow> response" where
  "epg_fetch axios u =
     (case epg_fetch_request u of
        Inl r \<Rightarrow> r
      | Inr q \<Rightarrow>
          (case axios q of
             Rejected err \<Rightarrow> json 500 (ErrorJson (js ''Failed to fetch EPG: '' @ message err))
           | Resolved resp \<Rightarrow>
               \<lparr>status = 200, headers = [(js ''Content-Type'', js ''application/xml'')],
                body = Raw (up_data resp)\<rparr>))"

text \<open>
  \<open>GET /api/download\<close>, up to the call of axios. The name of the attachment is computed
  before the call: a non-empty \<open>filename\<close> is decoded, which may throw; otherwise the name
  comes from \<open>path.basename\<close>, which does not throw. The name itself is used only in the
  headers of the answer, so only the error is kept here.
\<close>

definition filename_error :: "jsstring option \<Rightarrow> js_error option" where
  "filename_error filename =
     (case filename of
        None \<Rightarrow> None
      | Some f \<Rightarrow>
          if f \<noteq> [] then
            (case decodeURIComponent f of Inl err \<Rightarrow> Some err | Inr name \<Rightarrow> None)
          else None)"

definition download_request :: "jsstring option \<Rightarrow> jsstring option \<Rightarrow> response + request" where
  "download_request u filename =
     (case u of
        None \<Rightarrow> Inl (json 400 (ErrorJson (js ''URL required'')))
      | Some s \<Rightarrow>
          if s = [] then Inl (json 400 (ErrorJson (js ''URL required'')))
          else (case decodeURIComponent s of
                  Inl err \<Rightarrow> Inl (json 500 (ErrorJson (js ''Download failed: '' @ message err)))
                | Inr decodedUrl \<Rightarrow>
                    (case filename_error filename of
                       Some err \<Rightarrow>
                         Inl (json 500 (ErrorJson (js ''Download failed: '' @ message err)))
                     | None \<Rightarrow>
                         Inr (axios_request GET (JString decodedUrl) 60000
                                (Some ResponseStream)))))"

text \<open>The URL of the request a route dispatches, if it dispatches one.\<close>

definition dispatched :: "response + request \<Rightarrow> jsvalue option" where
  "dispatched r = (case r of Inl resp \<Rightarrow> None | Inr q \<Rightarrow> Some (target q))"

text \<open>An upstream that refuses every request with an error whose message is empty.\<close>

definition silent_failure :: "request \<Rightarrow> outcome" where
  "silent_failure q = Rejected (AxiosError [])"

text \<open>An upstream that answers every request with status 200 and a content type.\<close>

definition reachable :: "request \<Rightarrow> outcome" where
  "reachable q =
     Resolved \<lparr>up_status = 200,
               up_headers = (\<lambda>h. if h = js ''content-type'' then Some (js ''video/mp2t'') else None),
               up_data = []\<rparr>"

section \<open>The loop of the parser\<close>

lemma parse_loop_append:
  "parse_loop now i (xs @ ys) st = parse_loop now (i + length xs) ys (parse_loop now i xs st)"
proof (induction xs arbitrary: i st)
  case Nil
  show ?case by simp
next
  case (Cons x xs)
  obtain cur acc where st: "st = (cur, acc)" by (cases st)
  show ?case unfolding st by (simp add: Cons.IH split: option.split)
qed

lemma parse_loop_acc:
  "parse_loop now i ls (cur, acc) =
     (fst (parse_loop now i ls (cur, [])), acc @ snd (parse_loop now i ls (cur, [])))"
proof (induction ls arbitrary: i cur acc)
  case Nil
  show ?case by simp
next
  case (Cons l ls)
  show ?case
  proof (cases "startsWith l (js ''#EXTINF:'')")
    case True
    then show ?thesis using Cons.IH[of "Suc i" _ acc] by simp
  next
    case False
    show ?thesis
    proof (cases cur)
      case None
      then show ?thesis using False Cons.IH[of "Suc i" None acc] by simp
    next
      case (Some c)
      show ?thesis
      proof (cases "startsWith l (js ''#'')")
        case True
        then show ?thesis using False Some Cons.IH[of "Suc i" "Some c" acc] by simp
      next
        case h: False
        have a: "parse_loop now (Suc i) ls (None, acc @ [c\<lparr>url := l\<rparr>]) =
           (fst (parse_loop now (Suc i) ls (None, [])),
            (acc @ [c\<lparr>url := l\<rparr>]) @ snd (parse_loop now (Suc i) ls (None, [])))"
          by (rule Cons.IH)
        have b: "parse_loop now (Suc i) ls (None, [c\<lparr>url := l\<rparr>]) =
           (fst (parse_loop now (Suc i) ls (None, [])),
            [c\<lparr>url := l\<rparr>] @ snd (parse_loop now (Suc i) ls (None, [])))"
          by (rule Cons.IH)
        show ?thesis using False Some h by (simp add: a b)
      qed
    qed
  qed
qed

lemma parse_loop_entries:
  assumes "ls = drop i L"
    and "case cur of None \<Rightarrow> opn = None
         | Some c \<Rightarrow> \<exists>m. opn = Some m \<and> c = extinf (now m + int m) (L ! m)"
  shows "snd (parse_loop now i ls (cur, acc)) = acc @ map (record_of now L) (entries i ls opn)"
  using assms
proof (induction ls arbitrary: i cur opn acc)
  case Nil
  show ?case by simp
next
  case (Cons l ls)
  have i: "i < length L" using Cons.prems(1)
    by (metis drop_all list.distinct(1) not_le)
  have l: "l = L ! i" and ls: "ls = drop (Suc i) L"
    using Cons.prems(1) i by (metis Cons_nth_drop_Suc list.inject)+
  show ?case
  proof (cases "startsWith l (js ''#EXTINF:'')")
    case True
    have "snd (parse_loop now (Suc i) ls (Some (extinf (now i + int i) l), acc)) =
          acc @ map (record_of now L) (entries (Suc i) ls (Some i))"
      by (rule Cons.IH[OF ls]) (simp add: l)
    then show ?thesis using True by simp
  next
    case False
    show ?thesis
    proof (cases cur)
      case None
      then have o: "opn = None" using Cons.prems(2) by simp
      have "snd (parse_loop now (Suc i) ls (None, acc)) =
          acc @ map (record_of now L) (entries (Suc i) ls None)"
        by (rule Cons.IH[OF ls]) simp
      then show ?thesis using False None o by simp
    next
      case (Some c)
      then obtain m where o: "opn = Some m" and c: "c = extinf (now m + int m) (L ! m)"
        using Cons.prems(2) by auto
      show ?thesis
      proof (cases "startsWith l (js ''#'')")
        case True
        have "snd (parse_loop now (Suc i) ls (Some c, acc)) =
          acc @ map (record_of now L) (entries (Suc i) ls (Some m))"
          by (rule Cons.IH[OF ls]) (simp add: c)
        then show ?thesis using False Some o True by simp
      next
        case h: False
        have "snd (parse_loop now (Suc i) ls (None, acc @ [c\<lparr>url := l\<rparr>])) =
          (acc @ [c\<lparr>url := l\<rparr>]) @ map (record_of now L) (entries (Suc i) ls None)"
          by (rule Cons.IH[OF ls]) simp
        then show ?thesis using False Some o h by (simp add: record_of_def c l)
      qed
    qed
  qed
qed

lemma entries_bounds:
  assumes "ls = drop i L"
    and "\<forall>c. opn = Some c \<longrightarrow> c < i \<and> startsWith (L ! c) (js ''#EXTINF:'')"
    and "p \<in> set (entries i ls opn)"
  shows "fst p < snd p \<and> i \<le> snd p \<and> snd p < length L
         \<and> startsWith (L ! fst p) (js ''#EXTINF:'') \<and> (opn = Some (fst p) \<or> i \<le> fst p)"
  using assms
proof (induction ls arbitrary: i opn)
  case Nil
  then show ?case by simp
next
  case (Cons l ls)
  have i: "i < length L" using Cons.prems(1)
    by (metis drop_all list.distinct(1) not_le)
  have l: "l = L ! i" and ls: "ls = drop (Suc i) L"
    using Cons.prems(1) i by (metis Cons_nth_drop_Suc list.inject)+
  show ?case
  proof (cases "startsWith l (js ''#EXTINF:'')")
    case True
    then have p: "p \<in> set (entries (Suc i) ls (Some i))" using Cons.prems(3) by simp
    have "fst p < snd p \<and> Suc i \<le> snd p \<and> snd p < length L
         \<and> startsWith (L ! fst p) (js ''#EXTINF:'') \<and> (Some i = Some (fst p) \<or> Suc i \<le> fst p)"
      by (rule Cons.IH[OF ls _ p]) (use True l in simp)
    then show ?thesis by auto
  next
    case False
    show ?thesis
    proof (cases opn)
      case None
      then have p: "p \<in> set (entries (Suc i) ls None)" using Cons.prems(3) False by simp
      have "fst p < snd p \<and> Suc i \<le> snd p \<and> snd p < length L
         \<and> startsWith (L ! fst p) (js ''#EXTINF:'') \<and> (None = Some (fst p) \<or> Suc i \<le> fst p)"
        by (rule Cons.IH[OF ls _ p]) simp
      then show ?thesis by auto
    next
      case (Some m)
      then have m: "m < i" "startsWith (L ! m) (js ''#EXTINF:'')" using Cons.prems(2) by auto
      show ?thesis
      proof (cases "startsWith l (js ''#'')")
        case True
        then have p: "p \<in> set (entries (Suc i) ls (Some m))"
          using Cons.prems(3) False Some by simp
        have "fst p < snd p \<and> Suc i \<le> snd p \<and> snd p < length L
           \<and> startsWith (L ! fst p) (js ''#EXTINF:'') \<and> (Some m = Some (fst p) \<or> Suc i \<le> fst p)"
          by (rule Cons.IH[OF ls _ p]) (use m in simp)
        then show ?thesis using Some by auto
      next
        case h: False
        then have "p = (m, i) \<or> p \<in> set (entries (Suc i) ls None)"
          using Cons.prems(3) False Some by simp
        then show ?thesis
        proof
          assume "p = (m, i)"
          then show ?thesis using m i Some by simp
        next
          assume p: "p \<in> set (entries (Suc i) ls None)"
          have "fst p < snd p \<and> Suc i \<le> snd p \<and> snd p < length L
           \<and> startsWith (L ! fst p) (js ''#EXTINF:'') \<and> (None = Some (fst p) \<or> Suc i \<le> fst p)"
            by (rule Cons.IH[OF ls _ p]) simp
          then show ?thesis by auto
        qed
      qed
    qed
  qed
qed

lemma entries_sorted:
  assumes "ls = drop i L"
    and "\<forall>c. opn = Some c \<longrightarrow> c < i \<and> startsWith (L ! c) (js ''#EXTINF:'')"
  shows "sorted_wrt (\<lambda>p q. snd p < fst q) (entries i ls opn)"
  using assms
proof (induction ls arbitrary: i opn)
  case Nil
  then show ?case by simp
next
  case (Cons l ls)
  have i: "i < length L" using Cons.prems(1)
    by (metis drop_all list.distinct(1) not_le)
  have l: "l = L ! i" and ls: "ls = drop (Suc i) L"
    using Cons.prems(1) i by (metis Cons_nth_drop_Suc list.inject)+
  show ?case
  proof (cases "startsWith l (js ''#EXTINF:'')")
    case True
    have "sorted_wrt (\<lambda>p q. snd p < fst q) (entries (Suc i) ls (Some i))"
      by (rule Cons.IH[OF ls]) (use True l in simp)
    then show ?thesis using True by simp
  next
    case False
    have none: "sorted_wrt (\<lambda>p q. snd p < fst q) (entries (Suc i) ls None)"
      by (rule Cons.IH[OF ls]) simp
    show ?thesis
    proof (cases opn)
      case None
      then show ?thesis using False none by simp
    next
      case (Some m)
      then have m: "m < i" "startsWith (L ! m) (js ''#EXTINF:'')" using Cons.prems(2) by auto
      have some: "sorted_wrt (\<lambda>p q. snd p < fst q) (entries (Suc i) ls (Some m))"
        by (rule Cons.IH[OF ls]) (use m in simp)
      have later: "i < fst q" if "q \<in> set (entries (Suc i) ls None)" for q
        using entries_bounds[OF ls _ that] by auto
      show ?thesis using False Some some none later by simp
    qed
  qed
qed

lemma id_ch_extinf: "id_ch (extinf n line) = n"
  by (simp add: extinf_def Let_def split: option.split)

lemma doc_lines_nonempty: "l \<in> set (doc_lines doc) \<Longrightarrow> l \<noteq> []"
  by (simp add: doc_lines_def)

lemma parse_structure:
  "\<exists>ps. parseM3U now doc = map (record_of now (doc_lines doc)) ps
      \<and> sorted_wrt (\<lambda>p q. snd p < fst q) ps
      \<and> (\<forall>p\<in>set ps. fst p < snd p \<and> snd p < length (doc_lines doc)
            \<and> startsWith (doc_lines doc ! fst p) (js ''#EXTINF:''))"
proof -
  let ?L = "doc_lines doc"
  let ?ps = "entries 0 ?L None"
  have d: "?L = drop 0 ?L" by simp
  have "snd (parse_loop now 0 ?L (None, [])) = [] @ map (record_of now ?L) ?ps"
    by (rule parse_loop_entries[OF d]) simp
  then have a: "parseM3U now doc = map (record_of now ?L) ?ps"
    by (simp add: parseM3U_def)
  have b: "sorted_wrt (\<lambda>p q. snd p < fst q) ?ps"
    by (rule entries_sorted[OF d]) simp
  have c: "\<forall>p\<in>set ?ps. fst p < snd p \<and> snd p < length ?L
            \<and> startsWith (?L ! fst p) (js ''#EXTINF:'')"
  proof
    fix p assume p: "p \<in> set ?ps"
    show "fst p < snd p \<and> snd p < length ?L \<and> startsWith (?L ! fst p) (js ''#EXTINF:'')"
      using entries_bounds[OF d _ p] by simp
  qed
  from a b c show ?thesis by blast
qed

section \<open>Emitted records: URL and order\<close>

text \<open>
  Claim C1. Every record that \<open>parseM3U\<close> emits has a non-empty \<open>url\<close>, and the records
  are emitted in the order of their source entries: there are positions \<open>ps\<close>, one pair
  \<open>(m, j)\<close> per emitted record, such that the record is built from the metadata line at
  index \<open>m\<close> and closed by the URI line at index \<open>j > m\<close>, and the pair of every later
  record lies wholly after \<open>j\<close>.
\<close>

theorem parse_url_nonempty_in_order:
  "(\<forall>r\<in>set (parseM3U now doc). url r \<noteq> []) \<and>
   (\<exists>ps. parseM3U now doc = map (record_of now (doc_lines doc)) ps
      \<and> sorted_wrt (\<lambda>p q. snd p < fst q) ps
      \<and> (\<forall>p\<in>set ps. fst p < snd p \<and> snd p < length (doc_lines doc)
            \<and> startsWith (doc_lines doc ! fst p) (js ''#EXTINF:'')))"
proof
  obtain ps where a: "parseM3U now doc = map (record_of now (doc_lines doc)) ps"
    and c: "\<forall>p\<in>set ps. fst p < snd p \<and> snd p < length (doc_lines doc)
            \<and> startsWith (doc_lines doc ! fst p) (js ''#EXTINF:'')"
    using parse_structure[of now doc] by blast
  show "\<forall>r\<in>set (parseM3U now doc). url r \<noteq> []"
  proof
    fix r assume "r \<in> set (parseM3U now doc)"
    then obtain p where p: "p \<in> set ps" and r: "r = record_of now (doc_lines doc) p"
      using a by auto
    have "doc_lines doc ! snd p \<in> set (doc_lines doc)" using c p by simp
    then have "doc_lines doc ! snd p \<noteq> []" by (rule doc_lines_nonempty)
    then show "url r \<noteq> []" by (simp add: r record_of_def)
  qed
next
  show "\<exists>ps. parseM3U now doc = map (record_of now (doc_lines doc)) ps
      \<and> sorted_wrt (\<lambda>p q. snd p < fst q) ps
      \<and> (\<forall>p\<in>set ps. fst p < snd p \<and> snd p < length (doc_lines doc)
            \<and> startsWith (doc_lines doc ! fst p) (js ''#EXTINF:''))"
    by (rule parse_structure)
qed

theorem parse_url_nonempty_in_order_witness:
  "map url (parseM3U clock0 (js ''#EXTINF:-1,A\<newline>http://a\<newline>#EXTINF:-1,B\<newline>http://b'')) =
     [js ''http://a'', js ''http://b'']
   \<and> [] \<notin> set (map url (parseM3U clock0 (js ''#EXTINF:-1,A\<newline>http://a\<newline>#EXTINF:-1,B\<newline>http://b'')))"
proof -
  let ?D = "js ''#EXTINF:-1,A\<newline>http://a\<newline>#EXTINF:-1,B\<newline>http://b''"
  have e: "map url (parseM3U clock0 ?D) = [js ''http://a'', js ''http://b'']"
    by code_simp
  have "\<forall>r\<in>set (parseM3U clock0 ?D). url r \<noteq> []"
    using parse_url_nonempty_in_order[of clock0 ?D] by blast
  then have "[] \<notin> set (map url (parseM3U clock0 ?D))" by auto
  with e show ?thesis by blast
qed

section \<open>Identifiers\<close>

text \<open>
  Claim C9. The \<open>id\<close> of every emitted record is the clock reading taken at its metadata
  line plus the index of that line; when the clock never goes back during the call, the
  ids are strictly increasing in the order of emission, hence pairwise distinct.
\<close>

theorem parse_ids_increasing:
  "(\<forall>r\<in>set (parseM3U now doc). \<exists>i<length (doc_lines doc).
        startsWith (doc_lines doc ! i) (js ''#EXTINF:'') \<and> id_ch r = now i + int i) \<and>
   (mono now \<longrightarrow> sorted_wrt (<) (map id_ch (parseM3U now doc))
                 \<and> distinct (map id_ch (parseM3U now doc)))"
proof -
  let ?L = "doc_lines doc"
  obtain ps where a: "parseM3U now doc = map (record_of now ?L) ps"
    and b: "sorted_wrt (\<lambda>p q. snd p < fst q) ps"
    and c: "\<forall>p\<in>set ps. fst p < snd p \<and> snd p < length ?L
            \<and> startsWith (?L ! fst p) (js ''#EXTINF:'')"
    using parse_structure[of now doc] by blast
  have idr: "id_ch (record_of now ?L p) = now (fst p) + int (fst p)" for p
    by (simp add: record_of_def id_ch_extinf)
  have one: "\<forall>r\<in>set (parseM3U now doc). \<exists>i<length ?L.
        startsWith (?L ! i) (js ''#EXTINF:'') \<and> id_ch r = now i + int i"
  proof
    fix r assume "r \<in> set (parseM3U now doc)"
    then obtain p where p: "p \<in> set ps" and r: "r = record_of now ?L p"
      using a by auto
    have "fst p < length ?L" using c p by fastforce
    then show "\<exists>i<length ?L. startsWith (?L ! i) (js ''#EXTINF:'') \<and> id_ch r = now i + int i"
      using c p r idr by blast
  qed
  have two: "sorted_wrt (<) (map id_ch (parseM3U now doc))" if m: "mono now"
  proof -
    have step: "now (fst p) + int (fst p) < now (fst q) + int (fst q)"
      if "p \<in> set ps" "q \<in> set ps" "snd p < fst q" for p q
    proof -
      have "fst p < fst q" using c that by fastforce
      moreover from this have "now (fst p) \<le> now (fst q)" using m by (simp add: monoD)
      ultimately show ?thesis by simp
    qed
    have "sorted_wrt (\<lambda>p q. now (fst p) + int (fst p) < now (fst q) + int (fst q)) ps"
      by (rule sorted_wrt_mono_rel[OF _ b]) (use step in blast)
    then show ?thesis by (simp add: a sorted_wrt_map idr)
  qed
  have three: "distinct (map id_ch (parseM3U now doc))" if m: "mono now"
    using two[OF m] by (simp add: strict_sorted_iff)
  from one two three show ?thesis by blast
qed

theorem parse_ids_increasing_witness:
  "mono clock0
   \<and> map id_ch (parseM3U clock0 (js ''#EXTINF:-1,A\<newline>http://a\<newline>#EXTINF:-1,B\<newline>http://b'')) =
       [1700000000000, 1700000000002]
   \<and> distinct (map id_ch (parseM3U clock0 (js ''#EXTINF:-1,A\<newline>http://a\<newline>#EXTINF:-1,B\<newline>http://b'')))"
proof -
  let ?D = "js ''#EXTINF:-1,A\<newline>http://a\<newline>#EXTINF:-1,B\<newline>http://b''"
  have m: "mono clock0" by (simp add: mono_def clock0_def)
  have e: "map id_ch (parseM3U clock0 ?D) = [1700000000000, 1700000000002]"
    by code_simp
  have "distinct (map id_ch (parseM3U clock0 ?D))"
    using parse_ids_increasing[of clock0 ?D] m by blast
  with m e show ?thesis by blast
qed

section \<open>Dangling metadata lines\<close>

lemma parse_loop_comments:
  "\<forall>c\<in>set cs. startsWith c (js ''#'') \<and> \<not> startsWith c (js ''#EXTINF:'')
     \<Longrightarrow> parse_loop now i cs (cur, acc) = (cur, acc)"
  by (induction cs arbitrary: i) (auto split: option.split)

lemma parse_loop_no_open:
  "\<forall>l\<in>set ls. \<not> startsWith l (js ''#EXTINF:'')
     \<Longrightarrow> parse_loop now i ls (None, acc) = (None, acc)"
  by (induction ls arbitrary: i) auto

text \<open>
  Claim C2. A metadata line \<open>m\<close> that is followed, after comment lines only, by another
  metadata line or by the end of the input produces no record: the output is the records
  of the lines before \<open>m\<close> followed by the records of the lines from the next metadata
  line on, each numbered by its own position.
\<close>

theorem dangling_metadata_dropped:
  assumes "doc_lines doc = pre @ m # cs @ rest"
    and "startsWith m (js ''#EXTINF:'')"
    and "\<forall>c\<in>set cs. startsWith c (js ''#'') \<and> \<not> startsWith c (js ''#EXTINF:'')"
    and "rest = [] \<or> startsWith (hd rest) (js ''#EXTINF:'')"
  shows "parseM3U now doc =
           snd (parse_loop now 0 pre (None, [])) @
           snd (parse_loop now (Suc (length pre + length cs)) rest (None, []))"
proof -
  obtain c0 a0 where st0: "parse_loop now 0 pre (None, []) = (c0, a0)"
    by (cases "parse_loop now 0 pre (None, [])")
  let ?mrec = "extinf (now (length pre) + int (length pre)) m"
  let ?k = "Suc (length pre + length cs)"
  have "parse_loop now 0 (pre @ m # cs @ rest) (None, []) =
        parse_loop now (length pre) (m # cs @ rest) (c0, a0)"
    by (simp add: parse_loop_append st0)
  also have "\<dots> = parse_loop now (Suc (length pre)) (cs @ rest) (Some ?mrec, a0)"
    using assms(2) by simp
  also have "\<dots> = parse_loop now ?k rest (Some ?mrec, a0)"
    by (simp add: parse_loop_append parse_loop_comments[OF assms(3)])
  finally have run: "parse_loop now 0 (doc_lines doc) (None, []) =
                     parse_loop now ?k rest (Some ?mrec, a0)"
    by (simp add: assms(1))
  have "snd (parse_loop now ?k rest (Some ?mrec, a0)) = snd (parse_loop now ?k rest (None, a0))"
  proof (cases rest)
    case Nil
    then show ?thesis by simp
  next
    case (Cons r rs)
    then have "startsWith r (js ''#EXTINF:'')" using assms(4) by simp
    then show ?thesis unfolding Cons by simp
  qed
  then have "snd (parse_loop now 0 (doc_lines doc) (None, [])) =
             snd (parse_loop now ?k rest (None, a0))"
    by (simp add: run)
  also have "\<dots> = a0 @ snd (parse_loop now ?k rest (None, []))"
    by (subst parse_loop_acc) simp
  finally show ?thesis by (simp add: parseM3U_def st0)
qed

theorem dangling_metadata_dropped_witness:
  "map title (parseM3U clock0
     (js ''#EXTINF:-1,Lost\<newline>#EXTVLCOPT:x\<newline>#EXTINF:-1,Kept\<newline>http://k'')) = [js ''Kept'']"
proof -
  let ?D = "js ''#EXTINF:-1,Lost\<newline>#EXTVLCOPT:x\<newline>#EXTINF:-1,Kept\<newline>http://k''"
  let ?rest = "[js ''#EXTINF:-1,Kept'', js ''http://k'']"
  have L: "doc_lines ?D = [] @ js ''#EXTINF:-1,Lost'' # [js ''#EXTVLCOPT:x''] @ ?rest"
    by code_simp
  have m: "startsWith (js ''#EXTINF:-1,Lost'') (js ''#EXTINF:'')" by code_simp
  have c: "\<forall>c\<in>set [js ''#EXTVLCOPT:x'']. startsWith c (js ''#'') \<and> \<not> startsWith c (js ''#EXTINF:'')"
    by code_simp
  have r: "?rest = [] \<or> startsWith (hd ?rest) (js ''#EXTINF:'')" by code_simp
  have v: "map title (snd (parse_loop clock0 0 [] (None, [])) @
             snd (parse_loop clock0 (Suc (length ([]::jsstring list) + length [js ''#EXTVLCOPT:x''])) ?rest (None, [])))
           = [js ''Kept'']"
    by code_simp
  show ?thesis
    using dangling_metadata_dropped[OF L m c r, of clock0] v by simp
qed

section \<open>Totality and inputs without entries\<close>

lemma meta_is_hash:
  "startsWith l (js ''#EXTINF:'') \<Longrightarrow> startsWith l (js ''#'')"
  by (cases l) (auto simp add: startsWith_def js_def)

text \<open>
  Claim C4. Called with a string, \<open>parseM3U\<close> returns a list and throws nothing; the
  empty string gives the empty list; a document of comment lines only gives the empty
  list; the lines before the first metadata line produce no record; and a line that is
  not a metadata line is skipped while no record is open.
\<close>

theorem parse_total_on_strings:
  "parseM3U_call now (JString s) = Inr (parseM3U now s)
   \<and> parseM3U now (js '''') = []
   \<and> ((\<forall>l\<in>set (doc_lines doc). startsWith l (js ''#'') \<and> \<not> startsWith l (js ''#EXTINF:''))
        \<longrightarrow> parseM3U now doc = [])
   \<and> (doc_lines doc = pre @ rest \<and> (\<forall>l\<in>set pre. \<not> startsWith l (js ''#EXTINF:''))
        \<longrightarrow> parseM3U now doc = snd (parse_loop now (length pre) rest (None, [])))
   \<and> (\<not> startsWith l (js ''#EXTINF:'')
        \<longrightarrow> parse_loop now i (l # ls) (None, acc) = parse_loop now (Suc i) ls (None, acc))"
proof (intro conjI impI)
  show "parseM3U_call now (JString s) = Inr (parseM3U now s)" by simp
  show "parseM3U now (js '''') = []"
    by (simp add: parseM3U_def doc_lines_def js_def trim_def trimStart_def trimEnd_def)
  show "parseM3U now doc = []"
    if "\<forall>l\<in>set (doc_lines doc). startsWith l (js ''#'') \<and> \<not> startsWith l (js ''#EXTINF:'')"
    using parse_loop_comments[OF that, of now 0 None "[]"] by (simp add: parseM3U_def)
  show "parseM3U now doc = snd (parse_loop now (length pre) rest (None, []))"
    if "doc_lines doc = pre @ rest \<and> (\<forall>l\<in>set pre. \<not> startsWith l (js ''#EXTINF:''))"
  proof -
    have "parse_loop now 0 pre (None, []) = (None, [])"
      using that by (simp add: parse_loop_no_open)
    then show ?thesis using that by (simp add: parseM3U_def parse_loop_append)
  qed
  show "parse_loop now i (l # ls) (None, acc) = parse_loop now (Suc i) ls (None, acc)"
    if "\<not> startsWith l (js ''#EXTINF:'')"
    using that by simp
qed

theorem parse_total_on_strings_witness:
  "parseM3U clock0 (js ''#EXTM3U\<newline># note'') = []
   \<and> map url (parseM3U clock0 (js ''#EXTM3U\<newline>http://bare\<newline>#EXTINF:-1,A\<newline>http://a'')) = [js ''http://a'']
   \<and> parse_loop clock0 0 [js ''http://bare''] (None, []) = (None, [])"
proof -
  let ?C = "js ''#EXTM3U\<newline># note''"
  let ?D = "js ''#EXTM3U\<newline>http://bare\<newline>#EXTINF:-1,A\<newline>http://a''"
  let ?pre = "[js ''#EXTM3U'', js ''http://bare'']"
  let ?rest = "[js ''#EXTINF:-1,A'', js ''http://a'']"
  have c: "\<forall>l\<in>set (doc_lines ?C). startsWith l (js ''#'') \<and> \<not> startsWith l (js ''#EXTINF:'')"
    by code_simp
  have one: "parseM3U clock0 ?C = []"
    using parse_total_on_strings[of clock0 "[]" ?C "[]" "[]" "[]" 0 "[]" "[]"] c by blast
  have d: "doc_lines ?D = ?pre @ ?rest \<and> (\<forall>l\<in>set ?pre. \<not> startsWith l (js ''#EXTINF:''))"
    by code_simp
  have v: "map url (snd (parse_loop clock0 (length ?pre) ?rest (None, []))) = [js ''http://a'']"
    by code_simp
  have "parseM3U clock0 ?D = snd (parse_loop clock0 (length ?pre) ?rest (None, []))"
    using parse_total_on_strings[of clock0 "[]" ?D ?pre ?rest "[]" 0 "[]" "[]"] d by blast
  then have two: "map url (parseM3U clock0 ?D) = [js ''http://a'']" using v by simp
  have b: "\<not> startsWith (js ''http://bare'') (js ''#EXTINF:'')" by code_simp
  have "parse_loop clock0 0 [js ''http://bare''] (None, []) = parse_loop clock0 (Suc 0) [] (None, [])"
    using parse_total_on_strings[of clock0 "[]" "[]" "[]" "[]" "js ''http://bare''" 0 "[]" "[]"] b
    by blast
  then have three: "parse_loop clock0 0 [js ''http://bare''] (None, []) = (None, [])" by simp
  from one two three show ?thesis by blast
qed

section \<open>The fields of a metadata line\<close>

lemma title_extinf:
  "title (extinf n line) = (case titleMatch line of Some t \<Rightarrow> trim t | None \<Rightarrow> [])"
  by (simp add: extinf_def Let_def split: option.split)

lemma group_extinf:
  "group (extinf n line) =
     (case attrMatch (js ''group-title'') line of Some v \<Rightarrow> v | None \<Rightarrow> js ''Uncategorized'')"
  by (simp add: extinf_def Let_def split: option.split)

lemma logo_extinf:
  "logo (extinf n line) = (case attrMatch (js ''tvg-logo'') line of Some v \<Rightarrow> v | None \<Rightarrow> [])"
  by (simp add: extinf_def Let_def split: option.split)

lemma tvgId_extinf:
  "tvgId (extinf n line) = (case attrMatch (js ''tvg-id'') line of Some v \<Rightarrow> v | None \<Rightarrow> [])"
  by (simp add: extinf_def Let_def split: option.split)

lemma tvgName_extinf:
  "tvgName (extinf n line) = (case attrMatch (js ''tvg-name'') line of Some v \<Rightarrow> v | None \<Rightarrow> [])"
  by (simp add: extinf_def Let_def split: option.split)

lemma extinf_example:
  "extinf n (js ''#EXTINF:-1 tvg-id=\"5\",Title'') =
     \<lparr>id_ch = n, title = js ''Title'', group = js ''Uncategorized'', logo = [],
      url = [], tvgId = js ''5'', tvgName = []\<rparr>"
  by code_simp

lemma extinf_malformed:
  "extinf n (js ''#EXTINF:-1 tvg-id=5 tvg-logo=\"x,Title'') =
     \<lparr>id_ch = n, title = js ''Title'', group = js ''Uncategorized'', logo = [],
      url = [], tvgId = [], tvgName = []\<rparr>"
  by code_simp

lemma two_lines:
  assumes "startsWith m (js ''#EXTINF:'')" and "\<not> startsWith u (js ''#'')"
  shows "snd (parse_loop now 0 [m, u] (None, [])) = [(extinf (now 0 + 0) m)\<lparr>url := u\<rparr>]"
  using assms meta_is_hash[of u] by auto

text \<open>
  Claim C8. The line \<open>#EXTINF:-1 tvg-id="5",Title\<close>, closed by a URI line, gives the
  record with \<open>tvgId\<close> \<open>5\<close>, \<open>title\<close> \<open>Title\<close>, \<open>group\<close> \<open>Uncategorized\<close> and an empty
  \<open>logo\<close>. Each attribute field depends on the match of its own regular expression only
  and keeps its default when that does not match; an attribute without quotes or without
  the closing quote does not match.
\<close>

theorem attributes_independent:
  "(doc_lines doc = [js ''#EXTINF:-1 tvg-id=\"5\",Title'', u] \<and> \<not> startsWith u (js ''#'')
      \<longrightarrow> parseM3U now doc =
            [\<lparr>id_ch = now 0 + 0, title = js ''Title'', group = js ''Uncategorized'', logo = [],
              url = u, tvgId = js ''5'', tvgName = []\<rparr>])
   \<and> group (extinf n line) =
        (case attrMatch (js ''group-title'') line of Some v \<Rightarrow> v | None \<Rightarrow> js ''Uncategorized'')
   \<and> logo (extinf n line) =
        (case attrMatch (js ''tvg-logo'') line of Some v \<Rightarrow> v | None \<Rightarrow> [])
   \<and> tvgId (extinf n line) =
        (case attrMatch (js ''tvg-id'') line of Some v \<Rightarrow> v | None \<Rightarrow> [])
   \<and> tvgName (extinf n line) =
        (case attrMatch (js ''tvg-name'') line of Some v \<Rightarrow> v | None \<Rightarrow> [])
   \<and> extinf n (js ''#EXTINF:-1 tvg-id=5 tvg-logo=\"x,Title'') =
        \<lparr>id_ch = n, title = js ''Title'', group = js ''Uncategorized'', logo = [],
         url = [], tvgId = [], tvgName = []\<rparr>"
proof (intro conjI impI)
  show "parseM3U now doc =
            [\<lparr>id_ch = now 0 + 0, title = js ''Title'', group = js ''Uncategorized'', logo = [],
              url = u, tvgId = js ''5'', tvgName = []\<rparr>]"
    if h: "doc_lines doc = [js ''#EXTINF:-1 tvg-id=\"5\",Title'', u] \<and> \<not> startsWith u (js ''#'')"
  proof -
    have m: "startsWith (js ''#EXTINF:-1 tvg-id=\"5\",Title'') (js ''#EXTINF:'')"
      by code_simp
    have "parseM3U now doc = [(extinf (now 0 + 0) (js ''#EXTINF:-1 tvg-id=\"5\",Title''))\<lparr>url := u\<rparr>]"
      using h two_lines[OF m, of u now] by (simp add: parseM3U_def)
    then show ?thesis by (simp add: extinf_example)
  qed
qed (rule group_extinf logo_extinf tvgId_extinf tvgName_extinf extinf_malformed)+

theorem attributes_independent_witness:
  "parseM3U clock0 (js ''#EXTINF:-1 tvg-id=\"5\",Title\<newline>http://host/live'') =
     [\<lparr>id_ch = 1700000000000, title = js ''Title'', group = js ''Uncategorized'', logo = [],
       url = js ''http://host/live'', tvgId = js ''5'', tvgName = []\<rparr>]"
proof -
  let ?D = "js ''#EXTINF:-1 tvg-id=\"5\",Title\<newline>http://host/live''"
  have h: "doc_lines ?D = [js ''#EXTINF:-1 tvg-id=\"5\",Title'', js ''http://host/live'']
           \<and> \<not> startsWith (js ''http://host/live'') (js ''#'')"
    by code_simp
  have "parseM3U clock0 ?D =
            [\<lparr>id_ch = clock0 0 + 0, title = js ''Title'', group = js ''Uncategorized'', logo = [],
              url = js ''http://host/live'', tvgId = js ''5'', tvgName = []\<rparr>]"
    using attributes_independent[of ?D "js ''http://host/live''" clock0 0 "[]"] h by blast
  then show ?thesis by (simp add: clock0_def)
qed

section \<open>The title\<close>

lemma titleMatch_first_comma:
  "0x2C \<notin> set a \<Longrightarrow>
     titleMatch (a @ 0x2C # b) =
       (if b \<noteq> [] \<and> list_all (\<lambda>x. \<not> isLineTerminator x) b then Some b else titleMatch b)"
  by (induction a) auto

text \<open>
  Claim C3, as amended. The title is the text after the first comma of the metadata
  line, with surrounding whitespace removed, when that text is not empty and holds no
  line terminator. The claim as stated takes the text after the last comma; it fails on a
  title that holds a comma.
\<close>

theorem title_after_first_comma:
  assumes "doc_lines doc = [a @ 0x2C # b, u]"
    and "startsWith (a @ 0x2C # b) (js ''#EXTINF:'')"
    and "0x2C \<notin> set a"
    and "b \<noteq> []"
    and "\<forall>c\<in>set b. \<not> isLineTerminator c"
    and "\<not> startsWith u (js ''#'')"
  shows "map title (parseM3U now doc) = [trim b]"
proof -
  have "titleMatch (a @ 0x2C # b) = Some b"
    using assms(3,4,5) by (simp add: titleMatch_first_comma list_all_iff)
  then have "title (extinf (now 0 + 0) (a @ 0x2C # b)) = trim b"
    by (simp add: title_extinf)
  then show ?thesis
    using two_lines[OF assms(2,6), of now] by (simp add: parseM3U_def assms(1))
qed

theorem title_after_first_comma_witness:
  "map title (parseM3U clock0 (js ''#EXTINF:-1,News, Sports\<newline>http://a'')) = [js ''News, Sports'']"
proof -
  let ?D = "js ''#EXTINF:-1,News, Sports\<newline>http://a''"
  let ?a = "js ''#EXTINF:-1''"
  let ?b = "js ''News, Sports''"
  have h: "doc_lines ?D = [?a @ 0x2C # ?b, js ''http://a'']"
    "startsWith (?a @ 0x2C # ?b) (js ''#EXTINF:'')"
    "0x2C \<notin> set ?a" "?b \<noteq> []" "\<forall>c\<in>set ?b. \<not> isLineTerminator c"
    "\<not> startsWith (js ''http://a'') (js ''#'')"
    by code_simp+
  have t: "trim ?b = js ''News, Sports''" by code_simp
  show ?thesis using title_after_first_comma[OF h, of clock0] by (simp add: t)
qed

theorem title_last_comma_counterexample:
  "map title (parseM3U clock0 (js ''#EXTINF:-1,News, Sports\<newline>http://a'')) = [js ''News, Sports'']
   \<and> js ''News, Sports'' \<noteq> js ''Sports'' \<and> js ''News, Sports'' \<noteq> js '' Sports''"
  by code_simp

section \<open>Two-line entries\<close>

lemma split_nl_not_Nil: "split_nl s \<noteq> []"
  by (induction s) (auto split: list.split)

lemma split_nl_single: "0x0A \<notin> set u \<Longrightarrow> split_nl u = [u]"
  by (induction u) auto

lemma split_nl_break: "0x0A \<notin> set a \<Longrightarrow> split_nl (a @ 0x0A # b) = a # split_nl b"
  by (induction a) auto

lemma hash_not_trimmed: "\<not> isTrimmed 0x23"
  by (simp add: isTrimmed_def isWhiteSpace_def isLineTerminator_def)

lemma comma_not_trimmed: "\<not> isTrimmed 0x2C"
  by (simp add: isTrimmed_def isWhiteSpace_def isLineTerminator_def)

lemma trimEnd_idem: "trimEnd (trimEnd t) = trimEnd t"
  by (simp add: trimEnd_def)

lemma trim_trimEnd: "trim (trimEnd t) = trim t"
  by (simp add: trim_def trimEnd_idem)

lemma trimEnd_after: "\<not> isTrimmed c \<Longrightarrow> trimEnd (p @ c # t) = p @ c # trimEnd t"
  by (simp add: trimEnd_def dropWhile_append)

lemma trimStart_hash: "startsWith p (js ''#'') \<Longrightarrow> trimStart (p @ s) = p @ s"
  by (cases p) (auto simp add: trimStart_def startsWith_def js_def hash_not_trimmed)

lemma trim_metadata_line:
  assumes "startsWith p (js ''#EXTINF:'')"
  shows "trim (p @ 0x2C # t) = p @ 0x2C # trimEnd t"
  using trimStart_hash[OF meta_is_hash[OF assms]]
  by (simp add: trim_def trimEnd_after comma_not_trimmed)

lemma startsWith_append: "startsWith p q \<Longrightarrow> startsWith (p @ s) q"
  by (simp add: startsWith_def)

text \<open>
  Claim C5, as amended. For a metadata line \<open>p,t\<close> (\<open>p\<close> starts with the marker and holds
  no comma) followed by a URI line \<open>u\<close>, \<open>parseM3U\<close> emits exactly one record; its \<open>url\<close>
  is \<open>u\<close> and its \<open>title\<close> is \<open>t\<close>, each with surrounding whitespace removed and otherwise
  unchanged. The claim as stated says that both come back verbatim; it fails on a title
  that starts with a space.
\<close>

theorem two_line_entry_trimmed:
  assumes "startsWith p (js ''#EXTINF:'')"
    and "0x2C \<notin> set p" and "0x0A \<notin> set p"
    and "0x0A \<notin> set t" and "\<forall>c\<in>set (trimEnd t). \<not> isLineTerminator c"
    and "0x0A \<notin> set u" and "trim u \<noteq> []" and "\<not> startsWith (trim u) (js ''#'')"
  shows "\<exists>r. parseM3U now (p @ 0x2C # t @ 0x0A # u) = [r] \<and> url r = trim u \<and> title r = trim t"
proof -
  let ?m = "p @ 0x2C # trimEnd t"
  have "split_nl ((p @ 0x2C # t) @ 0x0A # u) = (p @ 0x2C # t) # split_nl u"
    by (rule split_nl_break) (use assms(3,4) in simp)
  then have "split_nl (p @ 0x2C # t @ 0x0A # u) = [p @ 0x2C # t, u]"
    by (simp add: split_nl_single[OF assms(6)])
  then have L: "doc_lines (p @ 0x2C # t @ 0x0A # u) = [?m, trim u]"
    by (simp add: doc_lines_def trim_metadata_line[OF assms(1)] assms(7))
  have m: "startsWith ?m (js ''#EXTINF:'')"
    by (rule startsWith_append[OF assms(1)])
  have P: "parseM3U now (p @ 0x2C # t @ 0x0A # u) = [(extinf (now 0 + 0) ?m)\<lparr>url := trim u\<rparr>]"
    using two_lines[OF m assms(8), of now] by (simp add: parseM3U_def L)
  have T: "title (extinf (now 0 + 0) ?m) = trim t"
  proof (cases "trimEnd t = []")
    case True
    then have "trim t = []" by (simp add: trim_def trimStart_def)
    moreover have "titleMatch (p @ [0x2C]) = None"
      by (simp add: titleMatch_first_comma[OF assms(2)])
    ultimately show ?thesis by (simp add: title_extinf True)
  next
    case False
    then have "titleMatch ?m = Some (trimEnd t)"
      using assms(5) by (simp add: titleMatch_first_comma[OF assms(2)] list_all_iff)
    then show ?thesis by (simp add: title_extinf trim_trimEnd)
  qed
  show ?thesis using P T by simp
qed

theorem two_line_entry_trimmed_witness:
  "map url (parseM3U clock0 (js ''#EXTINF:-1 tvg-id=\"5\", News \<newline> http://a '')) = [js ''http://a'']
   \<and> map title (parseM3U clock0 (js ''#EXTINF:-1 tvg-id=\"5\", News \<newline> http://a '')) = [js ''News'']"
proof -
  let ?p = "js ''#EXTINF:-1 tvg-id=\"5\"''"
  let ?t = "js '' News ''"
  let ?u = "js '' http://a ''"
  have h: "startsWith ?p (js ''#EXTINF:'')" "0x2C \<notin> set ?p" "0x0A \<notin> set ?p"
     "0x0A \<notin> set ?t" "\<forall>c\<in>set (trimEnd ?t). \<not> isLineTerminator c"
     "0x0A \<notin> set ?u" "trim ?u \<noteq> []" "\<not> startsWith (trim ?u) (js ''#'')"
    by code_simp+
  have d: "?p @ 0x2C # ?t @ 0x0A # ?u = js ''#EXTINF:-1 tvg-id=\"5\", News \<newline> http://a ''"
    by code_simp
  have tu: "trim ?u = js ''http://a''" "trim ?t = js ''News''" by code_simp+
  obtain r where r: "parseM3U clock0 (?p @ 0x2C # ?t @ 0x0A # ?u) = [r]"
      "url r = trim ?u" "title r = trim ?t"
    using two_line_entry_trimmed[OF h, of clock0] by blast
  show ?thesis using r unfolding d tu by simp
qed

theorem round_trip_counterexample:
  "parseM3U clock0 (js ''#EXTINF:-1, News\<newline>http://a'') =
     [\<lparr>id_ch = 1700000000000, title = js ''News'', group = js ''Uncategorized'', logo = [],
       url = js ''http://a'', tvgId = [], tvgName = []\<rparr>]
   \<and> js ''News'' \<noteq> js '' News''"
  by code_simp

section \<open>The inline-text route\<close>

text \<open>
  Claim C10. At \<open>POST /api/m3u/text\<close> an empty string as \<open>content\<close> is answered with
  status 400 and \<open>{error: "Content required"}\<close>, not with an empty list of channels; an
  answer with status 200 comes from a non-empty string only, and carries its parse.
\<close>

theorem empty_content_rejected:
  "m3u_text now (JString []) = json 400 (ErrorJson (js ''Content required''))
   \<and> m3u_text now (JString []) \<noteq> json 200 (ChannelsJson [] 0)
   \<and> (status (m3u_text now content) = 200 \<longrightarrow>
        (\<exists>s. content = JString s \<and> s \<noteq> [] \<and>
             m3u_text now content =
               json 200 (ChannelsJson (parseM3U now s) (length (parseM3U now s)))))"
proof (intro conjI impI)
  show "m3u_text now (JString []) = json 400 (ErrorJson (js ''Content required''))"
    by (simp add: m3u_text_def)
  show "m3u_text now (JString []) \<noteq> json 200 (ChannelsJson [] 0)"
    by (simp add: m3u_text_def json_def)
  show "\<exists>s. content = JString s \<and> s \<noteq> [] \<and>
             m3u_text now content =
               json 200 (ChannelsJson (parseM3U now s) (length (parseM3U now s)))"
    if "status (m3u_text now content) = 200"
    using that by (cases content) (auto simp add: m3u_text_def json_def split: if_splits)
qed

theorem empty_content_rejected_witness:
  "status (m3u_text clock0 (JString (js ''#EXTINF:-1,A\<newline>http://a''))) = 200
   \<and> m3u_text clock0 (JString (js ''#EXTINF:-1,A\<newline>http://a'')) =
       json 200 (ChannelsJson (parseM3U clock0 (js ''#EXTINF:-1,A\<newline>http://a''))
                  (length (parseM3U clock0 (js ''#EXTINF:-1,A\<newline>http://a''))))"
proof -
  let ?D = "js ''#EXTINF:-1,A\<newline>http://a''"
  have s: "status (m3u_text clock0 (JString ?D)) = 200" by code_simp
  show ?thesis using empty_content_rejected[of clock0 "JString ?D"] s by auto
qed

section \<open>The liveness check\<close>

text \<open>
  Claim C7, as amended. \<open>POST /api/stream/check\<close> always answers with status 200: with
  \<open>{alive: true, contentType, status}\<close> of the upstream response when the request
  resolves, and with \<open>{alive: false, error}\<close> when it is rejected, where \<open>error\<close> is the
  message of the error as it is. The claim as stated says that \<open>error\<close> is never empty; it
  is empty when the message of the error is.
\<close>

theorem check_never_fails:
  "status (stream_check axios u) = 200
   \<and> (case axios (stream_check_request u) of
         Resolved resp \<Rightarrow>
           body (stream_check axios u) =
             AliveJson (up_headers resp (js ''content-type'')) (up_status resp)
       | Rejected err \<Rightarrow> body (stream_check axios u) = DeadJson (message err))"
  by (simp add: stream_check_def json_def split: outcome.split)

theorem check_never_fails_witness:
  "stream_check reachable (JString (js ''http://h/'')) =
     json 200 (AliveJson (Some (js ''video/mp2t'')) 200)
   \<and> status (stream_check silent_failure JUndefined) = 200"
proof -
  have a: "status (stream_check reachable (JString (js ''http://h/''))) = 200
     \<and> body (stream_check reachable (JString (js ''http://h/''))) =
         AliveJson (Some (js ''video/mp2t'')) 200"
    using check_never_fails[of reachable "JString (js ''http://h/'')"]
    by (simp add: reachable_def)
  have h: "headers (stream_check reachable (JString (js ''http://h/''))) = []"
    by (simp add: stream_check_def reachable_def json_def)
  have b: "status (stream_check silent_failure JUndefined) = 200"
    using check_never_fails[of silent_failure JUndefined] by blast
  from a h b show ?thesis by (simp add: json_def)
qed

theorem check_empty_error_counterexample:
  "stream_check silent_failure (JString (js ''http://h/'')) = json 200 (DeadJson [])"
  by (simp add: stream_check_def silent_failure_def)

section \<open>The locator of the outbound request\<close>

text \<open>
  Claim C6, as amended. The routes that read the locator from the query string
  (\<open>/api/proxy/stream\<close> and \<open>/api/download\<close>) dispatch their request to
  \<open>decodeURIComponent\<close> of the locator, and dispatch none when decoding throws. The routes
  that read it from the body (\<open>/api/m3u/url\<close>, \<open>/api/epg/fetch\<close>, \<open>/api/stream/check\<close>)
  dispatch their request to the locator as it is. The claim as stated says that every
  route decodes; it fails on a body locator that holds an escape.
\<close>

theorem locator_dispatch:
  "(s \<noteq> [] \<and> decodeURIComponent s = Inr d \<longrightarrow>
      dispatched (proxy_stream_request (Some s)) = Some (JString d)
      \<and> (filename_error f = None \<longrightarrow>
           dispatched (download_request (Some s) f) = Some (JString d)))
   \<and> (decodeURIComponent s = Inl e \<longrightarrow>
      dispatched (proxy_stream_request (Some s)) = None
      \<and> dispatched (download_request (Some s) f) = None)
   \<and> (truthy u \<longrightarrow>
      dispatched (m3u_url_request u) = Some u \<and> dispatched (epg_fetch_request u) = Some u)
   \<and> target (stream_check_request u) = u"
  by (simp add: dispatched_def proxy_stream_request_def download_request_def
      m3u_url_request_def epg_fetch_request_def stream_check_request_def axios_request_def)

theorem locator_dispatch_witness:
  "dispatched (proxy_stream_request (Some (js ''http://h/%41''))) = Some (JString (js ''http://h/A''))
   \<and> dispatched (download_request (Some (js ''http://h/%41'')) None) = Some (JString (js ''http://h/A''))
   \<and> dispatched (proxy_stream_request (Some (js ''http://h/%''))) = None
   \<and> dispatched (m3u_url_request (JString (js ''http://h/%41''))) = Some (JString (js ''http://h/%41''))"
proof -
  let ?s = "js ''http://h/%41''"
  have d: "?s \<noteq> [] \<and> decodeURIComponent ?s = Inr (js ''http://h/A'')" by code_simp
  have f: "filename_error None = None" by (simp add: filename_error_def)
  have t: "truthy (JString ?s)" by code_simp
  have e: "decodeURIComponent (js ''http://h/%'') = Inl uri_malformed" by code_simp
  have one: "dispatched (proxy_stream_request (Some ?s)) = Some (JString (js ''http://h/A''))
     \<and> dispatched (download_request (Some ?s) None) = Some (JString (js ''http://h/A''))
     \<and> dispatched (m3u_url_request (JString ?s)) = Some (JString ?s)"
    using locator_dispatch[of ?s "js ''http://h/A''" None uri_malformed "JString ?s"] d f t
    by blast
  have two: "dispatched (proxy_stream_request (Some (js ''http://h/%''))) = None"
    using locator_dispatch[of "js ''http://h/%''" "[]" None uri_malformed JNull] e by blast
  from one two show ?thesis by blast
qed

theorem locator_not_decoded_counterexample:
  "dispatched (m3u_url_request (JString (js ''http://h/%41''))) = Some (JString (js ''http://h/%41''))
   \<and> dispatched (epg_fetch_request (JString (js ''http://h/%41''))) = Some (JString (js ''http://h/%41''))
   \<and> target (stream_check_request (JString (js ''http://h/%41''))) = JString (js ''http://h/%41'')
   \<and> decodeURIComponent (js ''http://h/%41'') = Inr (js ''http://h/A'')
   \<and> js ''http://h/%41'' \<noteq> js ''http://h/A''"
  by code_simp

end
